theory Spec2Isabelle
  imports Main "HOL-Library.Word"
begin

section \<open>The lazy arena allocator of lazy\_alloc.h\<close>

text \<open>
  The header keeps one global \<open>LazyArenaStack\<close>: an array of sixteen pointers to
  heap-allocated \<open>LazyArena\<close> structs and an \<open>int top\<close>. Every arena struct and
  every backing buffer comes from \<open>malloc\<close> and goes back through \<open>free\<close>.
  The model keeps the pointers: a machine state is the global stack together with a
  store that maps each allocated address to the block that lives there.

  \<^item> \<open>size_t\<close> is a 64-bit word (an LP64 platform); \<open>+\<close> wraps as in C.
  \<^item> \<open>uint8_t\<close> is an 8-bit word; \<open>return -1\<close> is the word \<open>-1 = 255\<close>.
  \<^item> \<open>int top\<close> is an \<open>int\<close>; it stays between \<open>-1\<close> and \<open>15\<close> on every state the
    operations produce, so it never overflows.
  \<^item> A pointer is an address, a natural number; \<open>NULL\<close> is address \<open>0\<close>.
  \<^item> Dereferencing or freeing an address that holds no suitable block, and indexing
    the array outside \<open>0..15\<close>, is undefined behaviour in C: the operations return
    \<open>None\<close> there.
  \<^item> \<open>malloc\<close> belongs to the host: the addresses it returns to
    \<open>create_lazy_context\<close> are arguments of the model (\<open>NULL\<close> for a failed call).
\<close>

subsection \<open>Data\<close>

type_synonym size_t = "64 word"
type_synonym uint8_t = "8 word"
type_synonym ptr = nat

definition NULL :: ptr where
  "NULL = 0"

definition MAX_LAZY_STACK :: int where
  "MAX_LAZY_STACK = 16"

record LazyArena =
  memory :: ptr
  size_arena :: size_t
  offset :: size_t

record LazyArenaStack =
  arenas :: "ptr list"
  top_idx :: int

text \<open>What \<open>malloc\<close> handed out: an arena struct, or a raw buffer of a given size.\<close>

datatype block = ArenaBlock LazyArena | RawBlock size_t

type_synonym store = "ptr \<Rightarrow> block option"

record machine =
  lazy_stack :: LazyArenaStack
  heap :: store

text \<open>The static initialiser \<open>{ .top = -1 }\<close>: the pointer array is zeroed.\<close>

definition init_machine :: machine where
  "init_machine =
     \<lparr>lazy_stack = \<lparr>arenas = replicate 16 NULL, top_idx = -1\<rparr>, heap = (\<lambda>p. None)\<rparr>"

text \<open>The number of live arenas, \<open>top + 1\<close>.\<close>

definition depth :: "machine \<Rightarrow> nat" where
  "depth s = nat (top_idx (lazy_stack s) + 1)"

subsection \<open>Memory accesses\<close>

text \<open>\<open>lazy_stack.arenas[i]\<close>: defined for \<open>0 \<le> i < MAX_LAZY_STACK\<close> only.\<close>

definition slot :: "LazyArenaStack \<Rightarrow> int \<Rightarrow> ptr option" where
  "slot st i =
     (if 0 \<le> i \<and> i < MAX_LAZY_STACK then Some (arenas st ! nat i) else None)"

text \<open>Reading \<open>*p\<close> as a \<open>LazyArena\<close>: defined when an arena struct lives at \<open>p\<close>.\<close>

definition arena_at :: "store \<Rightarrow> ptr \<Rightarrow> LazyArena option" where
  "arena_at h p = (case h p of Some (ArenaBlock a) \<Rightarrow> Some a | _ \<Rightarrow> None)"

text \<open>\<open>free(p)\<close>: nothing for \<open>NULL\<close>, undefined for an address that is not allocated.\<close>

definition free_ptr :: "ptr \<Rightarrow> store \<Rightarrow> store option" where
  "free_ptr p h =
     (if p = NULL then Some h
      else if h p = None then None
      else Some (h(p := None)))"

subsection \<open>The four operations\<close>

text \<open>
  \<open>create_lazy_context(size)\<close>. \<open>pa\<close> is what \<open>malloc(sizeof(LazyArena))\<close> returns and
  \<open>pm\<close> what \<open>malloc(size)\<close> returns. When the second call fails the struct is freed
  again, so the store is as before.
\<close>

definition create_lazy_context ::
  "size_t \<Rightarrow> ptr \<Rightarrow> ptr \<Rightarrow> machine \<Rightarrow> (uint8_t \<times> machine) option" where
  "create_lazy_context sz pa pm s =
     (let st = lazy_stack s in
      if top_idx st + 1 \<ge> MAX_LAZY_STACK then Some (- 1, s)
      else if pa = NULL then Some (- 1, s)
      else if pm = NULL then Some (- 1, s)
      else
        let t = top_idx st + 1 in
        if t < 0 then None
        else Some (word_of_int t,
          \<lparr>lazy_stack = \<lparr>arenas = (arenas st)[nat t := pa], top_idx = t\<rparr>,
           heap = (heap s)(pa \<mapsto> ArenaBlock \<lparr>memory = pm, size_arena = sz, offset = 0\<rparr>,
                           pm \<mapsto> RawBlock sz)\<rparr>))"

text \<open>\<open>lazy_alloc(size)\<close>; the sum \<open>offset + size\<close> is a \<open>size_t\<close> sum and wraps.\<close>

definition lazy_alloc :: "size_t \<Rightarrow> machine \<Rightarrow> (ptr \<times> machine) option" where
  "lazy_alloc sz s =
     (let st = lazy_stack s in
      if top_idx st < 0 then Some (NULL, s)
      else case slot st (top_idx st) of
        None \<Rightarrow> None
      | Some p \<Rightarrow>
          (case arena_at (heap s) p of
             None \<Rightarrow> None
           | Some a \<Rightarrow>
               if offset a + sz > size_arena a then Some (NULL, s)
               else Some (memory a + unat (offset a),
                  s\<lparr>heap := (heap s)(p \<mapsto> ArenaBlock (a\<lparr>offset := offset a + sz\<rparr>))\<rparr>)))"

text \<open>
  One round of the loop in \<open>destroy_lazy_context\<close>: read \<open>arenas[top--]\<close>, free the
  buffer, free the struct.
\<close>

definition pop_arena :: "machine \<Rightarrow> machine option" where
  "pop_arena s =
     (let st = lazy_stack s in
      case slot st (top_idx st) of
        None \<Rightarrow> None
      | Some p \<Rightarrow>
          (case arena_at (heap s) p of
             None \<Rightarrow> None
           | Some a \<Rightarrow>
               (case free_ptr (memory a) (heap s) of
                  None \<Rightarrow> None
                | Some h1 \<Rightarrow>
                    (case free_ptr p h1 of
                       None \<Rightarrow> None
                     | Some h2 \<Rightarrow>
                         Some \<lparr>lazy_stack = st\<lparr>top_idx := top_idx st - 1\<rparr>, heap = h2\<rparr>))))"

text \<open>
  \<open>while (lazy_stack.top >= context)\<close>: the \<open>uint8_t\<close> is promoted to \<open>int\<close> for the
  comparison.
\<close>

function destroy_loop :: "uint8_t \<Rightarrow> machine \<Rightarrow> machine option" where
  "destroy_loop ctx s =
     (if top_idx (lazy_stack s) \<ge> uint ctx then
        (case pop_arena s of
           None \<Rightarrow> None
         | Some s' \<Rightarrow> destroy_loop ctx s')
      else Some s)"
  by pat_completeness auto
termination
  by (relation "measure (\<lambda>(ctx, s). nat (top_idx (lazy_stack s) + 1))")
     (auto simp: pop_arena_def slot_def Let_def split: option.splits if_splits)

definition destroy_lazy_context :: "uint8_t \<Rightarrow> machine \<Rightarrow> machine option" where
  "destroy_lazy_context ctx s =
     (if top_idx (lazy_stack s) < 0 then Some s else destroy_loop ctx s)"

definition reset_lazy_context :: "machine \<Rightarrow> machine option" where
  "reset_lazy_context s =
     (let st = lazy_stack s in
      if top_idx st \<ge> 0 then
        (case slot st (top_idx st) of
           None \<Rightarrow> None
         | Some p \<Rightarrow>
             (case arena_at (heap s) p of
                None \<Rightarrow> None
              | Some a \<Rightarrow> Some (s\<lparr>heap := (heap s)(p \<mapsto> ArenaBlock (a\<lparr>offset := 0\<rparr>))\<rparr>)))
      else Some s)"

subsection \<open>Runs of calls\<close>

text \<open>
  A run of nested \<open>create_lazy_context\<close> calls, one per request \<open>(size, pa, pm)\<close>,
  collecting the identifiers the calls return.
\<close>

fun create_run ::
  "(size_t \<times> ptr \<times> ptr) list \<Rightarrow> machine \<Rightarrow> (uint8_t list \<times> machine) option" where
  "create_run [] s = Some ([], s)"
| "create_run ((sz, pa, pm) # rest) s =
     (case create_lazy_context sz pa pm s of
        None \<Rightarrow> None
      | Some (r, s') \<Rightarrow>
          (case create_run rest s' of
             None \<Rightarrow> None
           | Some (rs, s'') \<Rightarrow> Some (r # rs, s'')))"

text \<open>
  A run of \<open>lazy_alloc\<close> calls with no other call in between, collecting for every
  call the size asked for and the pointer returned.
\<close>

fun alloc_run :: "size_t list \<Rightarrow> machine \<Rightarrow> ((size_t \<times> ptr) list \<times> machine) option" where
  "alloc_run [] s = Some ([], s)"
| "alloc_run (sz # rest) s =
     (case lazy_alloc sz s of
        None \<Rightarrow> None
      | Some (p, s') \<Rightarrow>
          (case alloc_run rest s' of
             None \<Rightarrow> None
           | Some (ps, s'') \<Rightarrow> Some ((sz, p) # ps, s'')))"

subsection \<open>Conditions read off the code\<close>

text \<open>The guard of line 54: the stack has no free slot.\<close>

definition stack_full :: "machine \<Rightarrow> bool" where
  "stack_full s \<longleftrightarrow> top_idx (lazy_stack s) + 1 \<ge> MAX_LAZY_STACK"

text \<open>The three ways \<open>create_lazy_context\<close> reaches a \<open>return -1\<close>.\<close>

definition create_fails :: "ptr \<Rightarrow> ptr \<Rightarrow> machine \<Rightarrow> bool" where
  "create_fails pa pm s \<longleftrightarrow> stack_full s \<or> pa = NULL \<or> pm = NULL"

text \<open>
  What the host's \<open>malloc\<close> guarantees: a successful call returns an address that is
  not allocated at that moment; the second call comes after the first.
\<close>

definition malloc_fresh :: "store \<Rightarrow> ptr \<Rightarrow> ptr \<Rightarrow> bool" where
  "malloc_fresh h pa pm \<longleftrightarrow>
     (pa \<noteq> NULL \<longrightarrow> h pa = None) \<and>
     (pa \<noteq> NULL \<and> pm \<noteq> NULL \<longrightarrow> h pm = None \<and> pm \<noteq> pa)"

text \<open>The arena of stack index \<open>i\<close>, when the slot points at one.\<close>

definition arena_of :: "machine \<Rightarrow> nat \<Rightarrow> LazyArena option" where
  "arena_of s i = arena_at (heap s) (arenas (lazy_stack s) ! i)"

text \<open>The addresses owned by stack index \<open>i\<close>: the struct and its buffer.\<close>

definition owned :: "machine \<Rightarrow> nat \<Rightarrow> ptr list" where
  "owned s i =
     (case arena_of s i of
        None \<Rightarrow> [arenas (lazy_stack s) ! i]
      | Some a \<Rightarrow> [arenas (lazy_stack s) ! i, memory a])"

definition owned_between :: "machine \<Rightarrow> nat \<Rightarrow> nat \<Rightarrow> ptr list" where
  "owned_between s k n = concat (map (owned s) [k..<n])"

text \<open>The invariants of the data model: \<open>-1 \<le> top \<le> MAX_LAZY_STACK - 1\<close>, and
  \<open>offset \<le> size\<close> in every arena on the stack (\<open>0 \<le> offset\<close> holds of any
  \<open>size_t\<close>).\<close>

definition depth_bounded :: "machine \<Rightarrow> bool" where
  "depth_bounded s \<longleftrightarrow>
     - 1 \<le> top_idx (lazy_stack s) \<and> top_idx (lazy_stack s) \<le> MAX_LAZY_STACK - 1"

definition offsets_bounded :: "machine \<Rightarrow> bool" where
  "offsets_bounded s \<longleftrightarrow>
     (\<forall>i < depth s. case arena_of s i of
                        None \<Rightarrow> False
                      | Some a \<Rightarrow> 0 \<le> offset a \<and> offset a \<le> size_arena a)"

text \<open>
  The shape of the store that the operations keep up: every slot below the top points
  at an arena struct whose buffer is allocated with the arena's size, no address is
  owned twice, and nothing lives at \<open>NULL\<close>.
\<close>

definition pointers_ok :: "machine \<Rightarrow> bool" where
  "pointers_ok s \<longleftrightarrow>
     length (arenas (lazy_stack s)) = 16 \<and>
     heap s NULL = None \<and>
     (\<forall>i < depth s. case arena_of s i of
                        None \<Rightarrow> False
                      | Some a \<Rightarrow> memory a \<noteq> NULL \<and>
                                 heap s (memory a) = Some (RawBlock (size_arena a))) \<and>
     distinct (owned_between s 0 (depth s))"

definition well_formed :: "machine \<Rightarrow> bool" where
  "well_formed s \<longleftrightarrow> depth_bounded s \<and> offsets_bounded s \<and> pointers_ok s"

text \<open>The states a program reaches through the four operations.\<close>

inductive reachable :: "machine \<Rightarrow> bool" where
  reach_init: "reachable init_machine"
| reach_create:
    "reachable s \<Longrightarrow> malloc_fresh (heap s) pa pm \<Longrightarrow>
     create_lazy_context sz pa pm s = Some (r, s') \<Longrightarrow> reachable s'"
| reach_alloc:
    "reachable s \<Longrightarrow> lazy_alloc sz s = Some (p, s') \<Longrightarrow> reachable s'"
| reach_reset:
    "reachable s \<Longrightarrow> reset_lazy_context s = Some s' \<Longrightarrow> reachable s'"
| reach_destroy:
    "reachable s \<Longrightarrow> destroy_lazy_context ctx s = Some s' \<Longrightarrow> reachable s'"

subsection \<open>Sample states\<close>

text \<open>
  The state after \<open>create_lazy_context(10)\<close> on the initial machine, when \<open>malloc\<close>
  puts the struct at address 100 and the buffer at address 200.
\<close>

definition one_context :: machine where
  "one_context =
     \<lparr>lazy_stack = \<lparr>arenas = (replicate 16 NULL)[0 := 100], top_idx = 0\<rparr>,
      heap = (\<lambda>p. None)(100 \<mapsto> ArenaBlock \<lparr>memory = 200, size_arena = 10, offset = 0\<rparr>,
                          200 \<mapsto> RawBlock 10)\<rparr>"

text \<open>The same context after \<open>lazy_alloc(1)\<close>.\<close>

definition one_used :: machine where
  "one_used =
     \<lparr>lazy_stack = \<lparr>arenas = (replicate 16 NULL)[0 := 100], top_idx = 0\<rparr>,
      heap = (\<lambda>p. None)(100 \<mapsto> ArenaBlock \<lparr>memory = 200, size_arena = 10, offset = 1\<rparr>,
                          200 \<mapsto> RawBlock 10)\<rparr>"

text \<open>The same context used up: its offset equals its size.\<close>

definition one_filled :: machine where
  "one_filled =
     \<lparr>lazy_stack = \<lparr>arenas = (replicate 16 NULL)[0 := 100], top_idx = 0\<rparr>,
      heap = (\<lambda>p. None)(100 \<mapsto> ArenaBlock \<lparr>memory = 200, size_arena = 10, offset = 10\<rparr>,
                          200 \<mapsto> RawBlock 10)\<rparr>"

text \<open>
  The state of \<open>example.c\<close> when \<open>thread_func\<close> reaches its \<open>destroy_lazy_context\<close>:
  a context of 1024 bytes holding one \<open>int\<close>, and the nested context of 512 bytes that
  \<open>nested_function\<close> left open, holding two.
\<close>

definition two_contexts :: machine where
  "two_contexts =
     \<lparr>lazy_stack = \<lparr>arenas = (replicate 16 NULL)[0 := 100, 1 := 300], top_idx = 1\<rparr>,
      heap = (\<lambda>p. None)(100 \<mapsto> ArenaBlock \<lparr>memory = 200, size_arena = 1024, offset = 4\<rparr>,
                          200 \<mapsto> RawBlock 1024,
                          300 \<mapsto> ArenaBlock \<lparr>memory = 400, size_arena = 512, offset = 8\<rparr>,
                          400 \<mapsto> RawBlock 512)\<rparr>"

text \<open>Sixteen requests of eight bytes each, every \<open>malloc\<close> succeeding at a new address.\<close>

definition sixteen_requests :: "(size_t \<times> ptr \<times> ptr) list" where
  "sixteen_requests = map (\<lambda>i. (8, 100 + 2 * i, 101 + 2 * i)) [0..<16]"

section \<open>Properties\<close>

subsection \<open>The operations on a well-formed machine\<close>

lemma owned_between_Suc: "k \<le> n \<Longrightarrow> owned_between s k (Suc n) = owned_between s k n @ owned s n"
  by (simp add: owned_between_def)

lemma owned_cong:
  "arena_of s' j = arena_of s j \<Longrightarrow>
   arenas (lazy_stack s') ! j = arenas (lazy_stack s) ! j \<Longrightarrow> owned s' j = owned s j"
  by (simp add: owned_def split: option.splits)

lemma wf_arena:
  assumes "well_formed s" "i < depth s"
  shows "\<exists>a. arena_of s i = Some a \<and> offset a \<le> size_arena a \<and> memory a \<noteq> NULL \<and>
             heap s (memory a) = Some (RawBlock (size_arena a)) \<and>
             heap s (arenas (lazy_stack s) ! i) = Some (ArenaBlock a)"
proof -
  from assms have "case arena_of s i of None \<Rightarrow> False | Some a \<Rightarrow> 0 \<le> offset a \<and> offset a \<le> size_arena a"
    by (simp add: well_formed_def offsets_bounded_def)
  moreover from assms have "case arena_of s i of None \<Rightarrow> False | Some a \<Rightarrow> memory a \<noteq> NULL \<and>
                                 heap s (memory a) = Some (RawBlock (size_arena a))"
    by (simp add: well_formed_def pointers_ok_def)
  ultimately show ?thesis
    by (auto simp: arena_of_def arena_at_def split: option.splits block.splits)
qed

lemma wf_update:
  assumes wf: "well_formed s" and i: "i < depth s" and a: "arena_of s i = Some a"
    and a': "memory a' = memory a" "size_arena a' = size_arena a" "offset a' \<le> size_arena a'"
  shows "well_formed (s\<lparr>heap := (heap s)(arenas (lazy_stack s) ! i \<mapsto> ArenaBlock a')\<rparr>)"
    (is "well_formed ?s'")
proof -
  let ?p = "arenas (lazy_stack s) ! i"
  have hp: "heap s ?p = Some (ArenaBlock a)"
    using wf_arena[OF wf i] a by auto
  have ar: "arena_of ?s' j = (if arenas (lazy_stack s) ! j = ?p then Some a' else arena_of s j)" for j
    by (simp add: arena_of_def arena_at_def)
  have same: "arenas (lazy_stack s) ! j = ?p \<Longrightarrow> arena_of s j = Some a" for j
    using hp by (simp add: arena_of_def arena_at_def)
  have ow: "owned ?s' j = owned s j" for j
    using same[of j] a' by (auto simp: owned_def ar split: option.splits)
  have d: "depth ?s' = depth s" by (simp add: depth_def)
  have 1: "depth_bounded ?s'" using wf by (simp add: well_formed_def depth_bounded_def)
  have 2: "offsets_bounded ?s'"
    unfolding offsets_bounded_def d
  proof (intro allI impI)
    fix j assume j: "j < depth s"
    from wf_arena[OF wf j] obtain b where "arena_of s j = Some b" "offset b \<le> size_arena b" by auto
    then show "case arena_of ?s' j of None \<Rightarrow> False | Some a \<Rightarrow> 0 \<le> offset a \<and> offset a \<le> size_arena a"
      using a' by (simp add: ar)
  qed
  have 3: "pointers_ok ?s'"
    unfolding pointers_ok_def d
  proof (intro conjI allI impI)
    show "length (arenas (lazy_stack ?s')) = 16" using wf by (simp add: well_formed_def pointers_ok_def)
    have "?p \<noteq> NULL" using hp wf by (auto simp: well_formed_def pointers_ok_def)
    then show "heap ?s' NULL = None" using wf by (simp add: well_formed_def pointers_ok_def)
    show "distinct (owned_between ?s' 0 (depth s))"
    proof -
      have "owned ?s' = owned s" using ow by (intro ext)
      then show ?thesis using wf by (simp add: well_formed_def pointers_ok_def owned_between_def)
    qed
  next
    fix j assume j: "j < depth s"
    from wf_arena[OF wf j] obtain b where b: "arena_of s j = Some b" "memory b \<noteq> NULL"
       "heap s (memory b) = Some (RawBlock (size_arena b))" by auto
    have "memory b \<noteq> ?p" using b hp by auto
    moreover have "memory a \<noteq> ?p" using wf_arena[OF wf i] a hp by auto
    ultimately show "case arena_of ?s' j of None \<Rightarrow> False | Some a \<Rightarrow> memory a \<noteq> NULL \<and>
                                 heap ?s' (memory a) = Some (RawBlock (size_arena a))"
      using b a' same[of j] by (auto simp: ar)
  qed
  show ?thesis using 1 2 3 by (simp add: well_formed_def)
qed


lemma lazy_alloc_top:
  assumes "0 \<le> top_idx (lazy_stack s)" "top_idx (lazy_stack s) < MAX_LAZY_STACK"
    and "arena_of s (nat (top_idx (lazy_stack s))) = Some a"
  shows "lazy_alloc sz s =
     (if offset a + sz > size_arena a then Some (NULL, s)
      else Some (memory a + unat (offset a),
         s\<lparr>heap := (heap s)(arenas (lazy_stack s) ! nat (top_idx (lazy_stack s)) \<mapsto> ArenaBlock (a\<lparr>offset := offset a + sz\<rparr>))\<rparr>))"
  using assms by (simp add: lazy_alloc_def slot_def arena_of_def Let_def)

lemma reset_top:
  assumes "0 \<le> top_idx (lazy_stack s)" "top_idx (lazy_stack s) < MAX_LAZY_STACK"
    and "arena_of s (nat (top_idx (lazy_stack s))) = Some a"
  shows "reset_lazy_context s =
     Some (s\<lparr>heap := (heap s)(arenas (lazy_stack s) ! nat (top_idx (lazy_stack s)) \<mapsto> ArenaBlock (a\<lparr>offset := 0\<rparr>))\<rparr>)"
  using assms by (simp add: reset_lazy_context_def slot_def arena_of_def Let_def)

lemma wf_top:
  assumes "well_formed s" "0 \<le> top_idx (lazy_stack s)"
  shows "top_idx (lazy_stack s) < MAX_LAZY_STACK" "nat (top_idx (lazy_stack s)) < depth s"
  using assms by (auto simp: well_formed_def depth_bounded_def depth_def)

lemma lazy_alloc_wf:
  assumes wf: "well_formed s"
  shows "\<exists>r s'. lazy_alloc sz s = Some (r, s') \<and> well_formed s'"
proof (cases "top_idx (lazy_stack s) < 0")
  case True
  then show ?thesis using wf by (simp add: lazy_alloc_def)
next
  case False
  then have t: "0 \<le> top_idx (lazy_stack s)" by simp
  from wf_arena[OF wf wf_top(2)[OF wf t]] obtain a where
    a: "arena_of s (nat (top_idx (lazy_stack s))) = Some a" by auto
  show ?thesis
  proof (cases "offset a + sz > size_arena a")
    case True
    then show ?thesis using lazy_alloc_top[OF t wf_top(1)[OF wf t] a, of sz] wf by simp
  next
    case False
    then have "well_formed (s\<lparr>heap := (heap s)(arenas (lazy_stack s) ! nat (top_idx (lazy_stack s)) \<mapsto> ArenaBlock (a\<lparr>offset := offset a + sz\<rparr>))\<rparr>)"
      by (intro wf_update[OF wf wf_top(2)[OF wf t] a]) simp_all
    then show ?thesis using lazy_alloc_top[OF t wf_top(1)[OF wf t] a, of sz] False by simp
  qed
qed

lemma reset_wf:
  assumes wf: "well_formed s"
  shows "\<exists>s'. reset_lazy_context s = Some s' \<and> well_formed s'"
proof (cases "top_idx (lazy_stack s) < 0")
  case True
  then show ?thesis using wf by (simp add: reset_lazy_context_def)
next
  case False
  then have t: "0 \<le> top_idx (lazy_stack s)" by simp
  from wf_arena[OF wf wf_top(2)[OF wf t]] obtain a where
    a: "arena_of s (nat (top_idx (lazy_stack s))) = Some a" by auto
  have "well_formed (s\<lparr>heap := (heap s)(arenas (lazy_stack s) ! nat (top_idx (lazy_stack s)) \<mapsto> ArenaBlock (a\<lparr>offset := 0\<rparr>))\<rparr>)"
    by (intro wf_update[OF wf wf_top(2)[OF wf t] a]) simp_all
  then show ?thesis using reset_top[OF t wf_top(1)[OF wf t] a] by simp
qed

lemma owned_allocated:
  assumes wf: "well_formed s" and i: "i < depth s" and x: "x \<in> set (owned s i)"
  shows "heap s x \<noteq> None"
  using wf_arena[OF wf i] x by (auto simp: owned_def)

lemma create_ok:
  assumes "\<not> create_fails pa pm s" "- 1 \<le> top_idx (lazy_stack s)"
  shows "create_lazy_context sz pa pm s =
     Some (word_of_int (top_idx (lazy_stack s) + 1),
          \<lparr>lazy_stack = \<lparr>arenas = (arenas (lazy_stack s))[nat (top_idx (lazy_stack s) + 1) := pa],
                          top_idx = top_idx (lazy_stack s) + 1\<rparr>,
           heap = (heap s)(pa \<mapsto> ArenaBlock \<lparr>memory = pm, size_arena = sz, offset = 0\<rparr>,
                           pm \<mapsto> RawBlock sz)\<rparr>)"
  using assms by (simp add: create_lazy_context_def create_fails_def stack_full_def Let_def)

lemma create_fail:
  assumes "create_fails pa pm s"
  shows "create_lazy_context sz pa pm s = Some (255, s)"
  using assms by (auto simp: create_lazy_context_def create_fails_def stack_full_def Let_def)

lemma create_wf:
  assumes wf: "well_formed s" and fr: "malloc_fresh (heap s) pa pm"
  shows "\<exists>r s'. create_lazy_context sz pa pm s = Some (r, s') \<and> well_formed s'"
proof (cases "create_fails pa pm s")
  case True
  then show ?thesis using wf by (simp add: create_fail)
next
  case False
  let ?t = "top_idx (lazy_stack s)"
  let ?n = "depth s"
  let ?s' = "\<lparr>lazy_stack = \<lparr>arenas = (arenas (lazy_stack s))[nat (?t + 1) := pa], top_idx = ?t + 1\<rparr>,
           heap = (heap s)(pa \<mapsto> ArenaBlock \<lparr>memory = pm, size_arena = sz, offset = 0\<rparr>,
                           pm \<mapsto> RawBlock sz)\<rparr>"
  have t: "- 1 \<le> ?t" "?t + 1 < 16" "pa \<noteq> NULL" "pm \<noteq> NULL"
    using wf False
    by (auto simp: well_formed_def depth_bounded_def create_fails_def stack_full_def MAX_LAZY_STACK_def)
  have n: "nat (?t + 1) = ?n" "?n < 16"
    using t by (auto simp: depth_def)
  have d: "depth ?s' = Suc ?n"
    using t by (auto simp: depth_def)
  have len: "length (arenas (lazy_stack s)) = 16"
    using wf by (simp add: well_formed_def pointers_ok_def)
  have fresh: "heap s pa = None" "heap s pm = None" "pm \<noteq> pa"
    using fr t by (auto simp: malloc_fresh_def)
  have old: "arena_of ?s' j = arena_of s j \<and> owned ?s' j = owned s j
       \<and> heap ?s' (arenas (lazy_stack s) ! j) = heap s (arenas (lazy_stack s) ! j)" if j: "j < ?n" for j
  proof -
    from wf_arena[OF wf j] obtain b where b: "arena_of s j = Some b"
      "heap s (memory b) = Some (RawBlock (size_arena b))"
      "heap s (arenas (lazy_stack s) ! j) = Some (ArenaBlock b)" by auto
    have ne: "arenas (lazy_stack s) ! j \<noteq> pa" "arenas (lazy_stack s) ! j \<noteq> pm"
      using b fresh by auto
    have nth: "arenas (lazy_stack ?s') ! j = arenas (lazy_stack s) ! j"
      using j n by simp
    have "arena_of ?s' j = arena_of s j"
      using ne nth by (simp add: arena_of_def arena_at_def)
    then show ?thesis using nth ne owned_cong[of ?s' j s] by simp
  qed
  have new: "arena_of ?s' ?n = Some \<lparr>memory = pm, size_arena = sz, offset = 0\<rparr>"
    using n len fresh by (simp add: arena_of_def arena_at_def)
  have newo: "owned ?s' ?n = [pa, pm]"
    using new n len by (simp add: owned_def)
  have 1: "depth_bounded ?s'" using t by (simp add: depth_bounded_def MAX_LAZY_STACK_def)
  have 2: "offsets_bounded ?s'"
    unfolding offsets_bounded_def d
  proof (intro allI impI)
    fix j assume "j < Suc ?n"
    then consider "j < ?n" | "j = ?n" by linarith
    then show "case arena_of ?s' j of None \<Rightarrow> False | Some a \<Rightarrow> 0 \<le> offset a \<and> offset a \<le> size_arena a"
    proof cases
      case 1
      then show ?thesis using old[OF 1] wf_arena[OF wf 1] by auto
    next
      case 2
      then show ?thesis using new by simp
    qed
  qed
  have ob: "owned_between ?s' 0 ?n = owned_between s 0 ?n"
    unfolding owned_between_def using old by (intro arg_cong[where f=concat] map_cong) auto
  have 3: "pointers_ok ?s'"
    unfolding pointers_ok_def d
  proof (intro conjI allI impI)
    show "length (arenas (lazy_stack ?s')) = 16" using len by simp
    show "heap ?s' NULL = None" using wf t by (simp add: well_formed_def pointers_ok_def)
    have "pa \<notin> set (owned_between s 0 ?n)" "pm \<notin> set (owned_between s 0 ?n)"
      using owned_allocated[OF wf] fresh by (fastforce simp: owned_between_def)+
    moreover have "distinct (owned_between s 0 ?n)"
      using wf by (simp add: well_formed_def pointers_ok_def)
    ultimately show "distinct (owned_between ?s' 0 (Suc ?n))"
      using fresh by (simp add: owned_between_Suc ob newo)
  next
    fix j assume "j < Suc ?n"
    then consider "j < ?n" | "j = ?n" by linarith
    then show "case arena_of ?s' j of None \<Rightarrow> False | Some a \<Rightarrow> memory a \<noteq> NULL \<and>
                                 heap ?s' (memory a) = Some (RawBlock (size_arena a))"
    proof cases
      case 1
      from wf_arena[OF wf 1] obtain b where b: "arena_of s j = Some b" "memory b \<noteq> NULL"
        "heap s (memory b) = Some (RawBlock (size_arena b))" by auto
      then have "memory b \<noteq> pa" "memory b \<noteq> pm" using fresh by auto
      then show ?thesis using old[OF 1] b by simp
    next
      case 2
      then show ?thesis using new t by simp
    qed
  qed
  have "well_formed ?s'" using 1 2 3 by (simp add: well_formed_def)
  then show ?thesis using create_ok[OF False t(1), of sz] by simp
qed


lemma pop_arena_wf:
  assumes wf: "well_formed s" and t: "0 \<le> top_idx (lazy_stack s)"
  shows "\<exists>s'. pop_arena s = Some s' \<and> well_formed s' \<and>
           top_idx (lazy_stack s') = top_idx (lazy_stack s) - 1 \<and>
           arenas (lazy_stack s') = arenas (lazy_stack s) \<and>
           heap s' = (\<lambda>p. if p \<in> set (owned s (nat (top_idx (lazy_stack s)))) then None else heap s p) \<and>
           (\<forall>j < depth s'. owned s' j = owned s j)"
proof -
  let ?n = "nat (top_idx (lazy_stack s))"
  let ?p = "arenas (lazy_stack s) ! ?n"
  have n: "?n < depth s" "depth s = Suc ?n" "top_idx (lazy_stack s) < MAX_LAZY_STACK"
    using wf_top[OF wf t] t by (auto simp: depth_def)
  from wf_arena[OF wf n(1)] obtain a where a: "arena_of s ?n = Some a" "memory a \<noteq> NULL"
    "heap s (memory a) = Some (RawBlock (size_arena a))" "heap s ?p = Some (ArenaBlock a)"
    by auto
  have pn: "?p \<noteq> NULL" "?p \<noteq> memory a"
    using a wf by (auto simp: well_formed_def pointers_ok_def)
  let ?h = "(heap s)(memory a := None, ?p := None)"
  let ?s' = "\<lparr>lazy_stack = (lazy_stack s)\<lparr>top_idx := top_idx (lazy_stack s) - 1\<rparr>, heap = ?h\<rparr>"
  have pop: "pop_arena s = Some ?s'"
    using t n(3) a pn
    by (simp add: pop_arena_def slot_def Let_def arena_of_def free_ptr_def)
  have own: "owned s ?n = [?p, memory a]"
    using a by (simp add: owned_def)
  have hp: "?h = (\<lambda>p. if p \<in> set (owned s ?n) then None else heap s p)"
    by (auto simp: own)
  have dist: "distinct (owned_between s 0 ?n @ owned s ?n)"
    using wf n(2) by (simp add: well_formed_def pointers_ok_def owned_between_Suc)
  have d: "depth ?s' = ?n" using t by (simp add: depth_def)
  have old: "arena_of ?s' j = arena_of s j \<and> owned ?s' j = owned s j
           \<and> (\<forall>b. arena_of s j = Some b \<longrightarrow> ?h (memory b) = heap s (memory b))" if j: "j < ?n" for j
  proof -
    have jd: "j < depth s" using j n by simp
    from wf_arena[OF wf jd] obtain b where b: "arena_of s j = Some b" by auto
    have ow: "owned s j = [arenas (lazy_stack s) ! j, memory b]" using b by (simp add: owned_def)
    have "set (owned s j) \<subseteq> set (owned_between s 0 ?n)"
      using j by (auto simp: owned_between_def)
    then have "set (owned s j) \<inter> set (owned s ?n) = {}"
      using dist by auto
    then have ne: "arenas (lazy_stack s) ! j \<noteq> ?p" "arenas (lazy_stack s) ! j \<noteq> memory a"
       "memory b \<noteq> ?p" "memory b \<noteq> memory a"
      by (auto simp: ow own)
    have ar: "arena_of ?s' j = arena_of s j"
      using ne by (simp add: arena_of_def arena_at_def)
    have "owned ?s' j = owned s j"
      using ar by (intro owned_cong) simp_all
    then show ?thesis using ar ne b by simp
  qed
  have 1: "depth_bounded ?s'"
    using wf t by (simp add: well_formed_def depth_bounded_def)
  have 2: "offsets_bounded ?s'"
    unfolding offsets_bounded_def d
  proof (intro allI impI)
    fix j assume j: "j < ?n"
    then have "j < depth s" using n by simp
    from wf_arena[OF wf this] show "case arena_of ?s' j of None \<Rightarrow> False | Some a \<Rightarrow> 0 \<le> offset a \<and> offset a \<le> size_arena a"
      using old[OF j] by auto
  qed
  have ob: "owned_between ?s' 0 ?n = owned_between s 0 ?n"
    unfolding owned_between_def using old by (intro arg_cong[where f=concat] map_cong) auto
  have 3: "pointers_ok ?s'"
    unfolding pointers_ok_def d
  proof (intro conjI allI impI)
    show "length (arenas (lazy_stack ?s')) = 16" using wf by (simp add: well_formed_def pointers_ok_def)
    show "heap ?s' NULL = None" using wf by (simp add: well_formed_def pointers_ok_def)
    show "distinct (owned_between ?s' 0 ?n)" using dist ob by simp
  next
    fix j assume j: "j < ?n"
    then have "j < depth s" using n by simp
    from wf_arena[OF wf this] show "case arena_of ?s' j of None \<Rightarrow> False | Some a \<Rightarrow> memory a \<noteq> NULL \<and>
                                 heap ?s' (memory a) = Some (RawBlock (size_arena a))"
      using old[OF j] by auto
  qed
  have "well_formed ?s'" using 1 2 3 by (simp add: well_formed_def)
  moreover have "\<forall>j < depth ?s'. owned ?s' j = owned s j"
    using old d by simp
  ultimately show ?thesis
    using pop hp by (intro exI[of _ ?s']) simp
qed

lemma destroy_loop_wf:
  assumes "well_formed s"
  shows "\<exists>s'. destroy_loop c s = Some s' \<and> well_formed s' \<and>
           top_idx (lazy_stack s') = min (top_idx (lazy_stack s)) (uint c - 1) \<and>
           arenas (lazy_stack s') = arenas (lazy_stack s) \<and>
           heap s' = (\<lambda>p. if p \<in> set (owned_between s (unat c) (depth s)) then None else heap s p) \<and>
           (\<forall>j < depth s'. owned s' j = owned s j)"
  using assms
proof (induction c s rule: destroy_loop.induct)
  case (1 c s)
  show ?case
  proof (cases "top_idx (lazy_stack s) \<ge> uint c")
    case False
    have uc: "uint c = int (unat c)" by simp
    have "depth s \<le> unat c"
      using False unfolding depth_def uc by linarith
    then have "owned_between s (unat c) (depth s) = []"
      by (simp add: owned_between_def)
    then show ?thesis
      using False "1.prems" by (subst destroy_loop.simps) simp
  next
    case True
    have t: "0 \<le> top_idx (lazy_stack s)" using True by (smt (verit) uint_ge_0)
    let ?n = "nat (top_idx (lazy_stack s))"
    from pop_arena_wf[OF "1.prems" t] obtain s1 where s1: "pop_arena s = Some s1" "well_formed s1"
      "top_idx (lazy_stack s1) = top_idx (lazy_stack s) - 1"
      "arenas (lazy_stack s1) = arenas (lazy_stack s)"
      "heap s1 = (\<lambda>p. if p \<in> set (owned s ?n) then None else heap s p)"
      "\<forall>j < depth s1. owned s1 j = owned s j"
      by blast
    from "1.IH"[OF True s1(1) s1(2)] obtain s' where s': "destroy_loop c s1 = Some s'" "well_formed s'"
      "top_idx (lazy_stack s') = min (top_idx (lazy_stack s1)) (uint c - 1)"
      "arenas (lazy_stack s') = arenas (lazy_stack s1)"
      "heap s' = (\<lambda>p. if p \<in> set (owned_between s1 (unat c) (depth s1)) then None else heap s1 p)"
      "\<forall>j < depth s'. owned s' j = owned s1 j"
      by blast
    have uc: "uint c = int (unat c)" by simp
    have d: "depth s1 = ?n" "depth s = Suc ?n" "unat c \<le> ?n"
      using s1(3) t True unfolding depth_def uc by linarith+
    have ob1: "owned_between s1 (unat c) ?n = owned_between s (unat c) ?n"
      unfolding owned_between_def using s1(6) d by (intro arg_cong[where f=concat] map_cong) auto
    have ob: "owned_between s (unat c) (depth s) = owned_between s (unat c) ?n @ owned s ?n"
      using d by (simp add: owned_between_Suc)
    have "heap s' = (\<lambda>p. if p \<in> set (owned_between s (unat c) ?n) then None else heap s1 p)"
      using s'(5) d(1) ob1 by simp
    then have h: "heap s' = (\<lambda>p. if p \<in> set (owned_between s (unat c) (depth s)) then None else heap s p)"
      unfolding ob s1(5) by (simp add: fun_eq_iff)
    have dl: "depth s' \<le> depth s1"
      using s'(3) by (simp add: depth_def)
    have "destroy_loop c s = Some s'"
      using True s1(1) s'(1) by (subst destroy_loop.simps) simp
    moreover have "top_idx (lazy_stack s') = min (top_idx (lazy_stack s)) (uint c - 1)"
      using s'(3) s1(3) True by simp
    moreover have "\<forall>j < depth s'. owned s' j = owned s j"
      using s'(6) s1(6) dl by simp
    ultimately show ?thesis
      using s'(2) s'(4) s1(4) h by simp
  qed
qed

subsection \<open>The sample states are well formed\<close>

lemma all_less_2: "(\<forall>i<(2::nat). P i) \<longleftrightarrow> P 0 \<and> P 1"
  by (auto simp: less_Suc_eq numeral_2_eq_2)

lemma well_formed_init_machine: "well_formed init_machine"
  by (simp add: well_formed_def depth_bounded_def offsets_bounded_def pointers_ok_def
      init_machine_def depth_def MAX_LAZY_STACK_def owned_between_def)

lemma well_formed_one_context: "well_formed one_context"
  by (simp add: well_formed_def depth_bounded_def offsets_bounded_def pointers_ok_def
      one_context_def depth_def MAX_LAZY_STACK_def owned_between_def owned_def arena_of_def
      arena_at_def NULL_def)

lemma well_formed_one_used: "well_formed one_used"
  by (simp add: well_formed_def depth_bounded_def offsets_bounded_def pointers_ok_def
      one_used_def depth_def MAX_LAZY_STACK_def owned_between_def owned_def arena_of_def
      arena_at_def NULL_def)

lemma well_formed_one_filled: "well_formed one_filled"
  by (simp add: well_formed_def depth_bounded_def offsets_bounded_def pointers_ok_def
      one_filled_def depth_def MAX_LAZY_STACK_def owned_between_def owned_def arena_of_def
      arena_at_def NULL_def)

lemma well_formed_two_contexts: "well_formed two_contexts"
  by (simp add: well_formed_def depth_bounded_def offsets_bounded_def pointers_ok_def
      two_contexts_def depth_def MAX_LAZY_STACK_def owned_between_def owned_def arena_of_def
      arena_at_def NULL_def all_less_2 upt_rec)

subsection \<open>Allocation\<close>

text \<open>
  As long as the sum \<open>offset + size\<close> stays below \<open>2^64\<close>, the guard of \<open>lazy_alloc\<close>
  compares the request with the space that remains.
\<close>

lemma lazy_alloc_without_wrap:
  assumes wf: "well_formed s" and t: "0 \<le> top_idx (lazy_stack s)"
    and a: "arena_of s (nat (top_idx (lazy_stack s))) = Some a"
    and nw: "unat (offset a) + unat sz < 2 ^ 64"
  shows "lazy_alloc sz s =
     (if unat (size_arena a) - unat (offset a) < unat sz then Some (NULL, s)
      else Some (memory a + unat (offset a),
         s\<lparr>heap := (heap s)(arenas (lazy_stack s) ! nat (top_idx (lazy_stack s))
                             \<mapsto> ArenaBlock (a\<lparr>offset := offset a + sz\<rparr>))\<rparr>))"
proof -
  from wf_arena[OF wf wf_top(2)[OF wf t]] a have le: "unat (offset a) \<le> unat (size_arena a)"
    by (auto simp: word_le_nat_alt)
  have "unat (offset a + sz) = unat (offset a) + unat sz"
    using nw by (simp add: unat_word_ariths)
  then have "size_arena a < offset a + sz \<longleftrightarrow> unat (size_arena a) - unat (offset a) < unat sz"
    using le by (auto simp: word_less_nat_alt)
  then show ?thesis
    using lazy_alloc_top[OF t wf_top(1)[OF wf t] a, of sz] by simp
qed

text \<open>
  Claim C1: an allocation larger than the remaining space \<open>S - off\<close> of the top arena
  returns \<open>NULL\<close> and leaves the offset alone.

  The code compares the wrapped sum \<open>offset + size\<close> with the arena's size. After
  \<open>create_lazy_context(10)\<close> and \<open>lazy_alloc(1)\<close> the machine is \<open>one_used\<close>: the
  arena has size 10 and offset 1, so 9 bytes remain. A request of
  \<open>(size_t)-1 = 18446744073709551615\<close> bytes makes the sum wrap to 0: the call
  returns the pointer \<open>200 + 1\<close> instead of \<open>NULL\<close>, and the offset goes from 1 to 0
  (the resulting state is \<open>one_context\<close>).
\<close>

theorem lazy_alloc_wraps:
  "create_lazy_context 10 100 200 init_machine = Some (0, one_context) \<and>
   lazy_alloc 1 one_context = Some (200, one_used) \<and>
   arena_of one_used 0 = Some \<lparr>memory = 200, size_arena = 10, offset = 1\<rparr> \<and>
   unat (- 1 :: size_t) = 18446744073709551615 \<and>
   lazy_alloc (- 1) one_used = Some (201, one_context) \<and>
   arena_of one_context 0 = Some \<lparr>memory = 200, size_arena = 10, offset = 0\<rparr>"
  by (simp add: create_lazy_context_def init_machine_def lazy_alloc_def one_used_def
      one_context_def slot_def MAX_LAZY_STACK_def arena_of_def arena_at_def Let_def NULL_def
      fun_upd_twist unsigned_minus_1_eq_mask mask_eq_exp_minus_1)

text \<open>
  Claim C4: within one context, successful allocations never overlap and their sizes
  sum to at most the context's size.

  In the context of 10 bytes, the calls \<open>lazy_alloc(1)\<close>, \<open>lazy_alloc((size_t)-1)\<close>,
  \<open>lazy_alloc(1)\<close> all succeed. The first and the third return the same pointer 200,
  and the three sizes sum to \<open>2^64 + 1\<close>.
\<close>

theorem alloc_run_overlap:
  "alloc_run [1, - 1, 1] one_context = Some ([(1, 200), (- 1, 201), (1, 200)], one_used) \<and>
   unat (1 :: size_t) + unat (- 1 :: size_t) + unat (1 :: size_t) = 18446744073709551617"
  by (simp add: lazy_alloc_def one_used_def one_context_def slot_def MAX_LAZY_STACK_def
      arena_at_def Let_def NULL_def fun_upd_twist
      unsigned_minus_1_eq_mask mask_eq_exp_minus_1)

text \<open>
  Claim C8: on an empty stack (\<open>top < 0\<close>) \<open>lazy_alloc\<close> returns \<open>NULL\<close> for every
  requested size, and the state stays as it was.
\<close>

theorem lazy_alloc_empty_stack:
  "top_idx (lazy_stack s) < 0 \<Longrightarrow> lazy_alloc sz s = Some (NULL, s)"
  by (simp add: lazy_alloc_def)

theorem lazy_alloc_empty_stack_witness:
  "top_idx (lazy_stack init_machine) < 0 \<and> lazy_alloc 4 init_machine = Some (NULL, init_machine)"
  using lazy_alloc_empty_stack [of init_machine 4] by (simp add: init_machine_def)

text \<open>
  Claim C10: with a context open, \<open>lazy_alloc(0)\<close> succeeds: it returns
  \<open>memory + offset\<close> of the top arena, which is not \<open>NULL\<close>, and changes nothing,
  also when the offset already equals the size.
\<close>

theorem lazy_alloc_zero:
  assumes "well_formed s" and "0 \<le> top_idx (lazy_stack s)"
  shows "\<exists>a. arena_of s (nat (top_idx (lazy_stack s))) = Some a \<and>
             lazy_alloc 0 s = Some (memory a + unat (offset a), s) \<and>
             memory a + unat (offset a) \<noteq> NULL"
proof -
  let ?n = "nat (top_idx (lazy_stack s))"
  from wf_arena[OF assms(1) wf_top(2)[OF assms]] obtain a where
    a: "arena_of s ?n = Some a" "offset a \<le> size_arena a" "memory a \<noteq> NULL"
       "heap s (arenas (lazy_stack s) ! ?n) = Some (ArenaBlock a)"
    by auto
  have "(heap s)(arenas (lazy_stack s) ! ?n \<mapsto> ArenaBlock a) = heap s"
    using a(4) by (simp add: fun_upd_idem)
  then have "lazy_alloc 0 s = Some (memory a + unat (offset a), s)"
    using lazy_alloc_top[OF assms(2) wf_top(1)[OF assms] a(1), of 0] a(2)
    by (simp add: not_less [symmetric])
  then show ?thesis using a(1,3) by (simp add: NULL_def)
qed

theorem lazy_alloc_zero_witness:
  "well_formed one_filled \<and> 0 \<le> top_idx (lazy_stack one_filled) \<and>
   arena_of one_filled 0 = Some \<lparr>memory = 200, size_arena = 10, offset = 10\<rparr> \<and>
   lazy_alloc 0 one_filled = Some (210, one_filled)"
proof -
  have t: "0 \<le> top_idx (lazy_stack one_filled)" by (simp add: one_filled_def)
  have a: "arena_of one_filled 0 = Some \<lparr>memory = 200, size_arena = 10, offset = 10\<rparr>"
    by (simp add: one_filled_def arena_of_def arena_at_def)
  show ?thesis
    using lazy_alloc_zero [OF well_formed_one_filled t] well_formed_one_filled t a
    by (simp add: one_filled_def)
qed

subsection \<open>The invariants\<close>

lemma destroy_wf:
  assumes "well_formed s"
  shows "\<exists>s'. destroy_lazy_context c s = Some s' \<and> well_formed s'"
proof (cases "top_idx (lazy_stack s) < 0")
  case True
  then show ?thesis using assms by (simp add: destroy_lazy_context_def)
next
  case False
  then show ?thesis using destroy_loop_wf[OF assms, of c] by (auto simp: destroy_lazy_context_def)
qed

lemma reachable_well_formed: "reachable s \<Longrightarrow> well_formed s"
proof (induction rule: reachable.induct)
  case reach_init
  show ?case by (rule well_formed_init_machine)
next
  case (reach_create s pa pm sz r s')
  then show ?case using create_wf[of s pa pm sz] by auto
next
  case (reach_alloc s sz p s')
  then show ?case using lazy_alloc_wf[of s sz] by auto
next
  case (reach_reset s s')
  then show ?case using reset_wf[of s] by auto
next
  case (reach_destroy s ctx s')
  then show ?case using destroy_wf[of s ctx] by auto
qed

text \<open>
  Claim C7: every operation keeps \<open>0 \<le> offset \<le> size\<close> in every arena on the stack
  and \<open>-1 \<le> top \<le> MAX_LAZY_STACK - 1\<close>.

  The two bounds are inductive together with the shape of the store
  (\<open>pointers_ok\<close>). On a machine that satisfies the three, each of the four operations
  returns (no undefined behaviour) and gives a machine that satisfies them again;
  \<open>create_lazy_context\<close> under the guarantee of \<open>malloc\<close> that a new block has a new
  address.
\<close>

theorem invariant_preserved:
  assumes "depth_bounded s" and "offsets_bounded s" and "pointers_ok s"
  shows "(malloc_fresh (heap s) pa pm \<longrightarrow>
            (\<exists>r s'. create_lazy_context sz pa pm s = Some (r, s') \<and>
                depth_bounded s' \<and> offsets_bounded s' \<and> pointers_ok s')) \<and>
         (\<exists>p s'. lazy_alloc sz s = Some (p, s') \<and>
                depth_bounded s' \<and> offsets_bounded s' \<and> pointers_ok s') \<and>
         (\<exists>s'. reset_lazy_context s = Some s' \<and>
                depth_bounded s' \<and> offsets_bounded s' \<and> pointers_ok s') \<and>
         (\<exists>s'. destroy_lazy_context ctx s = Some s' \<and>
                depth_bounded s' \<and> offsets_bounded s' \<and> pointers_ok s')"
proof -
  have wf: "well_formed s" using assms by (simp add: well_formed_def)
  show ?thesis
    using create_wf[OF wf, of pa pm sz] lazy_alloc_wf[OF wf, of sz] reset_wf[OF wf]
      destroy_wf[OF wf, of ctx]
    by (simp add: well_formed_def)
qed

theorem invariant_preserved_witness:
  "depth_bounded one_context \<and> offsets_bounded one_context \<and> pointers_ok one_context \<and>
   malloc_fresh (heap one_context) 300 400 \<and>
   (\<exists>r s'. create_lazy_context 4 300 400 one_context = Some (r, s') \<and>
       depth_bounded s' \<and> offsets_bounded s' \<and> pointers_ok s') \<and>
   (\<exists>p s'. lazy_alloc 4 one_context = Some (p, s') \<and>
       depth_bounded s' \<and> offsets_bounded s' \<and> pointers_ok s') \<and>
   (\<exists>s'. reset_lazy_context one_context = Some s' \<and>
       depth_bounded s' \<and> offsets_bounded s' \<and> pointers_ok s') \<and>
   (\<exists>s'. destroy_lazy_context 0 one_context = Some s' \<and>
       depth_bounded s' \<and> offsets_bounded s' \<and> pointers_ok s')"
proof -
  have w: "depth_bounded one_context" "offsets_bounded one_context" "pointers_ok one_context"
    using well_formed_one_context by (simp_all add: well_formed_def)
  have m: "malloc_fresh (heap one_context) 300 400"
    by (simp add: malloc_fresh_def one_context_def)
  show ?thesis
    using invariant_preserved [OF w, of 300 400 4 0] w m by simp
qed

subsection \<open>Reset\<close>

text \<open>
  Claim C6: on a non-empty stack \<open>reset_lazy_context\<close> sets the offset of the top arena
  to 0 and changes neither its buffer pointer nor its size field, the buffer stays
  allocated, and an allocation of the arena's full size right after it succeeds
  (it returns the start of the buffer and fills the arena). On an empty stack the call
  changes nothing.
\<close>

theorem reset_then_alloc:
  "(well_formed s \<and> 0 \<le> top_idx (lazy_stack s) \<longrightarrow>
      (\<exists>a s' s''. arena_of s (nat (top_idx (lazy_stack s))) = Some a \<and>
          reset_lazy_context s = Some s' \<and>
          s' = s\<lparr>heap := (heap s)(arenas (lazy_stack s) ! nat (top_idx (lazy_stack s))
                               \<mapsto> ArenaBlock (a\<lparr>offset := 0\<rparr>))\<rparr> \<and>
          arena_of s' (nat (top_idx (lazy_stack s))) = Some (a\<lparr>offset := 0\<rparr>) \<and>
          heap s' (memory a) = Some (RawBlock (size_arena a)) \<and>
          lazy_alloc (size_arena a) s' = Some (memory a, s'') \<and> memory a \<noteq> NULL \<and>
          arena_of s'' (nat (top_idx (lazy_stack s))) = Some (a\<lparr>offset := size_arena a\<rparr>))) \<and>
   (top_idx (lazy_stack s) < 0 \<longrightarrow> reset_lazy_context s = Some s)"
proof (intro conjI impI)
  assume "top_idx (lazy_stack s) < 0"
  then show "reset_lazy_context s = Some s" by (simp add: reset_lazy_context_def)
next
  assume h: "well_formed s \<and> 0 \<le> top_idx (lazy_stack s)"
  then have wf: "well_formed s" and t: "0 \<le> top_idx (lazy_stack s)" by simp_all
  let ?n = "nat (top_idx (lazy_stack s))"
  let ?p = "arenas (lazy_stack s) ! ?n"
  from wf_arena[OF wf wf_top(2)[OF wf t]] obtain a where
    a: "arena_of s ?n = Some a" "memory a \<noteq> NULL"
       "heap s (memory a) = Some (RawBlock (size_arena a))"
       "heap s ?p = Some (ArenaBlock a)"
    by auto
  let ?s' = "s\<lparr>heap := (heap s)(?p \<mapsto> ArenaBlock (a\<lparr>offset := 0\<rparr>))\<rparr>"
  let ?s'' = "?s'\<lparr>heap := (heap ?s')(?p \<mapsto> ArenaBlock (a\<lparr>offset := size_arena a\<rparr>))\<rparr>"
  have r: "reset_lazy_context s = Some ?s'"
    by (rule reset_top[OF t wf_top(1)[OF wf t] a(1)])
  have a': "arena_of ?s' ?n = Some (a\<lparr>offset := 0\<rparr>)"
    by (simp add: arena_of_def arena_at_def)
  have ne: "memory a \<noteq> ?p" using a(3,4) by auto
  have m: "heap ?s' (memory a) = Some (RawBlock (size_arena a))"
    using a(3) ne by simp
  have t': "0 \<le> top_idx (lazy_stack ?s')" "top_idx (lazy_stack ?s') < MAX_LAZY_STACK"
    using t wf_top(1)[OF wf t] by simp_all
  have a'n: "arena_of ?s' (nat (top_idx (lazy_stack ?s'))) = Some (a\<lparr>offset := 0\<rparr>)"
    using a' by simp
  have al: "lazy_alloc (size_arena a) ?s' = Some (memory a, ?s'')"
    using lazy_alloc_top[OF t' a'n, of "size_arena a"] by simp
  have a'': "arena_of ?s'' ?n = Some (a\<lparr>offset := size_arena a\<rparr>)"
    by (simp add: arena_of_def arena_at_def)
  show "\<exists>a s' s''. arena_of s ?n = Some a \<and>
          reset_lazy_context s = Some s' \<and>
          s' = s\<lparr>heap := (heap s)(?p \<mapsto> ArenaBlock (a\<lparr>offset := 0\<rparr>))\<rparr> \<and>
          arena_of s' ?n = Some (a\<lparr>offset := 0\<rparr>) \<and>
          heap s' (memory a) = Some (RawBlock (size_arena a)) \<and>
          lazy_alloc (size_arena a) s' = Some (memory a, s'') \<and> memory a \<noteq> NULL \<and>
          arena_of s'' ?n = Some (a\<lparr>offset := size_arena a\<rparr>)"
    using a(1) r a' m al a(2) a'' by blast
qed

theorem reset_then_alloc_witness:
  "well_formed one_used \<and> 0 \<le> top_idx (lazy_stack one_used) \<and>
   arena_of one_used 0 = Some \<lparr>memory = 200, size_arena = 10, offset = 1\<rparr> \<and>
   reset_lazy_context one_used = Some one_context \<and>
   arena_of one_context 0 = Some \<lparr>memory = 200, size_arena = 10, offset = 0\<rparr> \<and>
   lazy_alloc 10 one_context = Some (200, one_filled) \<and>
   top_idx (lazy_stack init_machine) < 0 \<and>
   reset_lazy_context init_machine = Some init_machine"
proof -
  have t: "0 \<le> top_idx (lazy_stack one_used)" by (simp add: one_used_def)
  have e: "top_idx (lazy_stack init_machine) < 0" by (simp add: init_machine_def)
  have a: "arena_of one_used 0 = Some \<lparr>memory = 200, size_arena = 10, offset = 1\<rparr>"
    by (simp add: arena_of_def arena_at_def one_used_def)
  have n: "nat (top_idx (lazy_stack one_used)) = 0" by (simp add: one_used_def)
  have u: "one_used\<lparr>heap := (heap one_used)(arenas (lazy_stack one_used) ! 0 \<mapsto>
              ArenaBlock \<lparr>memory = 200, size_arena = 10, offset = 0\<rparr>)\<rparr> = one_context"
    by (simp add: one_used_def one_context_def fun_upd_twist)
  have a0: "arena_of one_context 0 = Some \<lparr>memory = 200, size_arena = 10, offset = 0\<rparr>"
    by (simp add: arena_of_def arena_at_def one_context_def)
  have f: "lazy_alloc 10 one_context = Some (200, one_filled)"
    by (simp add: lazy_alloc_def one_context_def one_filled_def slot_def MAX_LAZY_STACK_def
        arena_at_def Let_def fun_upd_twist)
  show ?thesis
    using reset_then_alloc [of one_used] reset_then_alloc [of init_machine]
      well_formed_one_used t e a a0 f
    by (simp add: n u)
qed

subsection \<open>Identifiers and the sentinel\<close>

lemma create_fails_sentinel: "(- 1 :: uint8_t) = 255"
  by simp

lemma small_id:
  assumes "0 \<le> t" "t < 16"
  shows "uint (word_of_int t :: uint8_t) = t" "(word_of_int t :: uint8_t) \<noteq> 255"
proof -
  show u: "uint (word_of_int t :: uint8_t) = t"
    using assms by (simp add: uint_word_of_int take_bit_eq_mod)
  show "(word_of_int t :: uint8_t) \<noteq> 255"
  proof
    assume "(word_of_int t :: uint8_t) = 255"
    then have "uint (word_of_int t :: uint8_t) = 255" by simp
    then show False using u assms by simp
  qed
qed


lemma destroy_sentinel_noop:
  assumes "top_idx (lazy_stack s) \<le> MAX_LAZY_STACK - 1"
  shows "destroy_lazy_context 255 s = Some s"
  using assms
  by (simp add: destroy_lazy_context_def MAX_LAZY_STACK_def del: destroy_loop.simps)
     (subst destroy_loop.simps, simp)

text \<open>
  Claim C9: on every failure \<open>create_lazy_context\<close> returns the \<open>uint8_t\<close> value 255
  and leaves the state alone; a successful call returns the new top index, which is at
  most \<open>MAX_LAZY_STACK - 1 = 15\<close> and so differs from 255; and
  \<open>destroy_lazy_context(255)\<close> changes nothing on any reachable state.
\<close>

theorem sentinel_never_an_identifier:
  assumes "reachable s"
  shows "(create_fails pa pm s \<longrightarrow> create_lazy_context sz pa pm s = Some (255, s)) \<and>
         (\<not> create_fails pa pm s \<longrightarrow>
            (\<exists>r s'. create_lazy_context sz pa pm s = Some (r, s') \<and>
                uint r = top_idx (lazy_stack s') \<and> uint r \<le> MAX_LAZY_STACK - 1 \<and> r \<noteq> 255)) \<and>
         destroy_lazy_context 255 s = Some s"
proof -
  have wf: "well_formed s" by (rule reachable_well_formed[OF assms])
  then have b: "- 1 \<le> top_idx (lazy_stack s)" "top_idx (lazy_stack s) \<le> MAX_LAZY_STACK - 1"
    by (simp_all add: well_formed_def depth_bounded_def)
  have 1: "create_fails pa pm s \<longrightarrow> create_lazy_context sz pa pm s = Some (255, s)"
    by (simp add: create_fail)
  have 2: "\<exists>r s'. create_lazy_context sz pa pm s = Some (r, s') \<and>
                uint r = top_idx (lazy_stack s') \<and> uint r \<le> MAX_LAZY_STACK - 1 \<and> r \<noteq> 255"
    if nf: "\<not> create_fails pa pm s"
  proof -
    have t: "0 \<le> top_idx (lazy_stack s) + 1" "top_idx (lazy_stack s) + 1 < 16"
      using b nf by (simp_all add: create_fails_def stack_full_def MAX_LAZY_STACK_def)
    show ?thesis
      using create_ok[OF nf b(1), of sz] small_id[OF t] t
      by (simp add: MAX_LAZY_STACK_def)
  qed
  show ?thesis using 1 2 destroy_sentinel_noop[OF b(2)] by blast
qed

theorem sentinel_never_an_identifier_witness:
  "reachable init_machine \<and> create_fails 100 NULL init_machine \<and>
   create_lazy_context 10 100 NULL init_machine = Some (255, init_machine) \<and>
   \<not> create_fails 100 200 init_machine \<and>
   create_lazy_context 10 100 200 init_machine = Some (0, one_context) \<and>
   destroy_lazy_context 255 init_machine = Some init_machine"
proof -
  have f: "create_fails 100 NULL init_machine" by (simp add: create_fails_def)
  have nf: "\<not> create_fails 100 200 init_machine"
    by (simp add: create_fails_def stack_full_def init_machine_def MAX_LAZY_STACK_def NULL_def)
  have c: "create_lazy_context 10 100 200 init_machine = Some (0, one_context)"
    by (simp add: create_lazy_context_def init_machine_def MAX_LAZY_STACK_def NULL_def Let_def
        one_context_def)
  show ?thesis
    using sentinel_never_an_identifier [OF reach_init, of 100 NULL 10]
      sentinel_never_an_identifier [OF reach_init, of 100 200 10] f nf c reach_init
    by simp
qed

subsection \<open>Destroying contexts\<close>

lemma owned_between_split:
  "k \<le> n \<Longrightarrow> owned_between s 0 n = owned_between s 0 k @ owned_between s k n"
proof -
  assume "k \<le> n"
  then have "[0..<n] = [0..<k] @ [k..<n]"
    by (metis le0 upt_add_eq_append le_add_diff_inverse)
  then show ?thesis by (simp add: owned_between_def)
qed

text \<open>
  Claim C2: on a stack of depth \<open>n > k\<close>, \<open>destroy_lazy_context(k)\<close> leaves depth \<open>k\<close>
  and frees exactly the structs and buffers of the arenas at indices \<open>k..n-1\<close>: the
  store loses these addresses and is unchanged elsewhere, so the arenas below \<open>k\<close>
  are as before. A second call with the same \<open>k\<close> changes nothing, and the call
  changes nothing on an empty stack.
\<close>

theorem destroy_cascades:
  "(well_formed s \<and> unat k < depth s \<longrightarrow>
      (\<exists>s'. destroy_lazy_context k s = Some s' \<and> depth s' = unat k \<and>
          arenas (lazy_stack s') = arenas (lazy_stack s) \<and>
          heap s' = (\<lambda>p. if p \<in> set (owned_between s (unat k) (depth s)) then None
                          else heap s p) \<and>
          (\<forall>j < unat k. arena_of s' j = arena_of s j) \<and>
          destroy_lazy_context k s' = Some s')) \<and>
   (top_idx (lazy_stack s) < 0 \<longrightarrow> destroy_lazy_context k s = Some s)"
proof (intro conjI impI)
  assume "top_idx (lazy_stack s) < 0"
  then show "destroy_lazy_context k s = Some s" by (simp add: destroy_lazy_context_def)
next
  assume h: "well_formed s \<and> unat k < depth s"
  then have wf: "well_formed s" and kn: "unat k < depth s" by simp_all
  have uk: "uint k = int (unat k)" by simp
  have t: "uint k \<le> top_idx (lazy_stack s)" "0 \<le> top_idx (lazy_stack s)"
    using kn unfolding depth_def uk by linarith+
  from destroy_loop_wf[OF wf, of k] obtain s' where s': "destroy_loop k s = Some s'"
    "well_formed s'" "top_idx (lazy_stack s') = min (top_idx (lazy_stack s)) (uint k - 1)"
    "arenas (lazy_stack s') = arenas (lazy_stack s)"
    "heap s' = (\<lambda>p. if p \<in> set (owned_between s (unat k) (depth s)) then None else heap s p)"
    by blast
  have d: "destroy_lazy_context k s = Some s'"
    using s'(1) t(2) by (simp add: destroy_lazy_context_def)
  have top': "top_idx (lazy_stack s') = uint k - 1"
    using s'(3) t(1) by simp
  have dep: "depth s' = unat k"
    unfolding depth_def top' uk by simp
  have again: "destroy_lazy_context k s' = Some s'"
    unfolding destroy_lazy_context_def
    by (subst destroy_loop.simps) (simp add: top')
  have dist: "distinct (owned_between s 0 (unat k) @ owned_between s (unat k) (depth s))"
    using wf owned_between_split[of "unat k" "depth s" s] kn
    by (simp add: well_formed_def pointers_ok_def)
  have keep: "arena_of s' j = arena_of s j" if j: "j < unat k" for j
  proof -
    have "arenas (lazy_stack s) ! j \<in> set (owned s j)"
      by (simp add: owned_def split: option.splits)
    then have "arenas (lazy_stack s) ! j \<in> set (owned_between s 0 (unat k))"
      using j by (auto simp: owned_between_def)
    then have "arenas (lazy_stack s) ! j \<notin> set (owned_between s (unat k) (depth s))"
      using dist by auto
    then show ?thesis by (simp add: arena_of_def arena_at_def s'(4) s'(5))
  qed
  show "\<exists>s'. destroy_lazy_context k s = Some s' \<and> depth s' = unat k \<and>
          arenas (lazy_stack s') = arenas (lazy_stack s) \<and>
          heap s' = (\<lambda>p. if p \<in> set (owned_between s (unat k) (depth s)) then None
                          else heap s p) \<and>
          (\<forall>j < unat k. arena_of s' j = arena_of s j) \<and>
          destroy_lazy_context k s' = Some s'"
    using d dep s'(4) s'(5) keep again by blast
qed


theorem destroy_cascades_witness:
  "well_formed two_contexts \<and> unat (1 :: uint8_t) < depth two_contexts \<and>
   (\<exists>s'. destroy_lazy_context 1 two_contexts = Some s' \<and> depth s' = 1 \<and>
      heap s' 300 = None \<and> heap s' 400 = None \<and>
      arena_of s' 0 = Some \<lparr>memory = 200, size_arena = 1024, offset = 4\<rparr> \<and>
      destroy_lazy_context 1 s' = Some s') \<and>
   top_idx (lazy_stack init_machine) < 0 \<and>
   destroy_lazy_context 1 init_machine = Some init_machine"
proof -
  have d: "unat (1 :: uint8_t) < depth two_contexts"
    by (simp add: depth_def two_contexts_def)
  have o: "owned_between two_contexts (Suc 0) (depth two_contexts) = [300, 400]"
    by (simp add: owned_between_def owned_def arena_of_def arena_at_def depth_def
        two_contexts_def upt_rec numeral_2_eq_2)
  have a: "arena_of two_contexts 0 = Some \<lparr>memory = 200, size_arena = 1024, offset = 4\<rparr>"
    by (simp add: arena_of_def arena_at_def two_contexts_def)
  have e: "top_idx (lazy_stack init_machine) < 0" by (simp add: init_machine_def)
  from destroy_cascades [of two_contexts 1] well_formed_two_contexts d
  obtain s' where s': "destroy_lazy_context 1 two_contexts = Some s'" "depth s' = unat (1 :: uint8_t)"
     "heap s' = (\<lambda>p. if p \<in> set (owned_between two_contexts (unat (1 :: uint8_t)) (depth two_contexts)) then None
                          else heap two_contexts p)"
     "\<forall>j < unat (1 :: uint8_t). arena_of s' j = arena_of two_contexts j"
     "destroy_lazy_context 1 s' = Some s'"
    by blast
  have "heap s' 300 = None" "heap s' 400 = None" "depth s' = 1"
    "arena_of s' 0 = Some \<lparr>memory = 200, size_arena = 1024, offset = 4\<rparr>"
    using s'(2,4) a by (simp_all add: s'(3) o)
  then have "\<exists>s'. destroy_lazy_context 1 two_contexts = Some s' \<and> depth s' = 1 \<and>
      heap s' 300 = None \<and> heap s' 400 = None \<and>
      arena_of s' 0 = Some \<lparr>memory = 200, size_arena = 1024, offset = 4\<rparr> \<and>
      destroy_lazy_context 1 s' = Some s'"
    using s'(1,5) by blast
  then show ?thesis
    using well_formed_two_contexts d e destroy_cascades [of init_machine 1] by simp
qed

subsection \<open>Runs of nested creations\<close>

lemma create_step:
  assumes "- 1 \<le> top_idx (lazy_stack s)"
  shows "\<exists>r s'. create_lazy_context sz pa pm s = Some (r, s') \<and>
           - 1 \<le> top_idx (lazy_stack s') \<and>
           (if create_fails pa pm s then r = 255 \<and> s' = s
            else r = word_of_nat (depth s) \<and> r \<noteq> 255 \<and> depth s' = Suc (depth s) \<and>
                 depth s' \<le> 16)"
proof (cases "create_fails pa pm s")
  case True
  then show ?thesis using assms by (simp add: create_fail)
next
  case False
  let ?t = "top_idx (lazy_stack s) + 1"
  let ?s' = "\<lparr>lazy_stack = \<lparr>arenas = (arenas (lazy_stack s))[nat ?t := pa], top_idx = ?t\<rparr>,
           heap = (heap s)(pa \<mapsto> ArenaBlock \<lparr>memory = pm, size_arena = sz, offset = 0\<rparr>,
                           pm \<mapsto> RawBlock sz)\<rparr>"
  have t: "0 \<le> ?t" "?t < 16"
    using assms False by (simp_all add: create_fails_def stack_full_def MAX_LAZY_STACK_def)
  have w: "(word_of_nat (depth s) :: uint8_t) = word_of_int ?t"
    unfolding depth_def by (rule of_nat_nat[OF t(1)])
  have c: "create_lazy_context sz pa pm s = Some (word_of_int ?t, ?s')"
    by (rule create_ok[OF False assms])
  have d: "depth ?s' = Suc (depth s)" "depth ?s' \<le> 16" "- 1 \<le> top_idx (lazy_stack ?s')"
    using t unfolding depth_def by simp_all
  show ?thesis
    using c d small_id(2)[OF t] False unfolding w by (intro exI[of _ "word_of_int ?t"] exI[of _ ?s']) simp
qed

lemma create_run_ids:
  assumes "- 1 \<le> top_idx (lazy_stack s)" and "depth s \<le> 16"
  shows "\<exists>ids s'. create_run reqs s = Some (ids, s') \<and> - 1 \<le> top_idx (lazy_stack s') \<and>
           depth s' \<le> depth s + length reqs \<and> depth s' \<le> 16 \<and>
           ((\<forall>r \<in> set ids. r \<noteq> 255) \<longrightarrow>
              depth s' = depth s + length reqs \<and> depth s' \<le> 16 \<and>
              ids = map (\<lambda>i. word_of_nat (depth s + i)) [0..<length reqs])"
  using assms
proof (induction reqs arbitrary: s)
  case Nil
  then show ?case by simp
next
  case (Cons q reqs)
  obtain sz pa pm where q: "q = (sz, pa, pm)" by (cases q) auto
  from create_step[OF Cons.prems(1), of sz pa pm] obtain r s1 where
    c: "create_lazy_context sz pa pm s = Some (r, s1)" "- 1 \<le> top_idx (lazy_stack s1)"
       "if create_fails pa pm s then r = 255 \<and> s1 = s
        else r = word_of_nat (depth s) \<and> r \<noteq> 255 \<and> depth s1 = Suc (depth s) \<and> depth s1 \<le> 16"
    by blast
  have le: "depth s1 \<le> Suc (depth s)" "depth s1 \<le> 16"
    using c(3) Cons.prems(2) by (auto split: if_splits)
  from Cons.IH[OF c(2) le(2)] obtain ids s' where
    i: "create_run reqs s1 = Some (ids, s')" "- 1 \<le> top_idx (lazy_stack s')"
       "depth s' \<le> depth s1 + length reqs" "depth s' \<le> 16"
       "(\<forall>r \<in> set ids. r \<noteq> 255) \<longrightarrow>
          depth s' = depth s1 + length reqs \<and> depth s' \<le> 16 \<and>
          ids = map (\<lambda>i. word_of_nat (depth s1 + i)) [0..<length reqs]"
    by blast
  have run: "create_run (q # reqs) s = Some (r # ids, s')"
    using c(1) i(1) q by simp
  have ok: "depth s' = depth s + length (q # reqs) \<and> depth s' \<le> 16 \<and>
      r # ids = map (\<lambda>i. word_of_nat (depth s + i)) [0..<length (q # reqs)]"
    if all: "\<forall>r \<in> set (r # ids). r \<noteq> 255"
  proof -
    have nf: "\<not> create_fails pa pm s" using all c(3) by auto
    then have r: "r = word_of_nat (depth s)" "depth s1 = Suc (depth s)" using c(3) by simp_all
    from all i(5) have "depth s' = depth s1 + length reqs" "depth s' \<le> 16"
      "ids = map (\<lambda>i. word_of_nat (depth s1 + i)) [0..<length reqs]" by simp_all
    then show ?thesis using r by (simp add: map_upt_Suc del: upt_Suc)
  qed
  show ?case
    using run i(2) i(3) i(4) le(1) ok by (intro exI[of _ "r # ids"] exI[of _ s']) auto
qed

lemma create_run_succeeds:
  assumes "- 1 \<le> top_idx (lazy_stack s)" and "depth s + length reqs \<le> 16"
    and "\<forall>q \<in> set reqs. fst (snd q) \<noteq> NULL \<and> snd (snd q) \<noteq> NULL"
  shows "\<exists>ids s'. create_run reqs s = Some (ids, s') \<and> (\<forall>r \<in> set ids. r \<noteq> 255)"
  using assms
proof (induction reqs arbitrary: s)
  case Nil
  then show ?case by simp
next
  case (Cons q reqs)
  obtain sz pa pm where q: "q = (sz, pa, pm)" by (cases q) auto
  have "top_idx (lazy_stack s) + 1 < 16"
    using Cons.prems(1,2) by (simp add: depth_def)
  then have nf: "\<not> create_fails pa pm s"
    using Cons.prems(3) q by (simp add: create_fails_def stack_full_def MAX_LAZY_STACK_def)
  from create_step[OF Cons.prems(1), of sz pa pm] nf obtain r s1 where
    c: "create_lazy_context sz pa pm s = Some (r, s1)" "- 1 \<le> top_idx (lazy_stack s1)"
       "r \<noteq> 255" "depth s1 = Suc (depth s)"
    by auto
  have "depth s1 + length reqs \<le> 16" using c(4) Cons.prems(2) by simp
  from Cons.IH[OF c(2) this] Cons.prems(3) obtain ids s' where
    "create_run reqs s1 = Some (ids, s')" "\<forall>r \<in> set ids. r \<noteq> 255" by auto
  then show ?case using c(1,3) q by simp
qed

text \<open>
  Claim C5: starting from an empty stack, when \<open>N\<close> calls of \<open>create_lazy_context\<close> in a
  row all succeed (none returns the sentinel 255), then \<open>N \<le> MAX_LAZY_STACK\<close>, the depth
  is \<open>N\<close> afterwards and the calls returned \<open>0, 1, \<dots>, N - 1\<close> in this order. The run
  itself always returns.
\<close>

theorem create_ids_in_order:
  assumes "top_idx (lazy_stack s) = - 1"
  shows "\<exists>ids s'. create_run reqs s = Some (ids, s') \<and>
           ((\<forall>r \<in> set ids. r \<noteq> 255) \<longrightarrow>
              length reqs \<le> 16 \<and> depth s' = length reqs \<and>
              ids = map word_of_nat [0..<length reqs])"
proof -
  have t: "- 1 \<le> top_idx (lazy_stack s)" and d: "depth s = 0" and d16: "depth s \<le> 16"
    using assms by (simp_all add: depth_def)
  from create_run_ids[OF t d16, of reqs] show ?thesis
    unfolding d by (elim exE conjE, intro exI conjI) auto
qed

theorem create_ids_in_order_witness:
  "top_idx (lazy_stack init_machine) = - 1 \<and>
   (\<exists>s'. create_run [(1024, 100, 200), (512, 300, 400), (8, 500, 600)] init_machine
            = Some ([0, 1, 2], s') \<and> depth s' = 3)"
proof -
  have e: "top_idx (lazy_stack init_machine) = - 1" by (simp add: init_machine_def)
  have l: "map word_of_nat [0..<3] = [0, 1, 2 :: uint8_t]"
    by (simp add: upt_rec numeral_3_eq_3)
  from create_ids_in_order [OF e, of "[(1024, 100, 200), (512, 300, 400), (8, 500, 600)]"]
  obtain ids s' where
    r: "create_run [(1024, 100, 200), (512, 300, 400), (8, 500, 600)] init_machine = Some (ids, s')"
       "(\<forall>r \<in> set ids. r \<noteq> 255) \<longrightarrow> depth s' = 3 \<and> ids = [0, 1, 2]"
    unfolding l by auto
  have "\<forall>r \<in> set ids. r \<noteq> 255"
    using r(1)
    by (auto simp: create_lazy_context_def init_machine_def MAX_LAZY_STACK_def NULL_def Let_def)
  then show ?thesis using r e by auto
qed


text \<open>
  Claim C3: on a stack of depth \<open>MAX_LAZY_STACK = 16\<close> a further
  \<open>create_lazy_context\<close> takes the stack-full return: it gives the sentinel 255 and the
  state (depth, and every arena's buffer, size and offset) is the one before. In a run of
  nested calls from an empty stack the seventeenth call is the first to fail for a full
  stack:
  \<^item> when \<open>malloc\<close> succeeds in every call, a run of \<open>N \<le> 16\<close> calls returns the
    identifiers \<open>0, \<dots>, N - 1\<close>, none of them the sentinel, and leaves depth \<open>N\<close>; for
    \<open>N = 16\<close> the stack is then full and a seventeenth call returns 255 and changes
    nothing, so the run of seventeen calls returns \<open>0, \<dots>, 15, 255\<close>;
  \<^item> whatever \<open>malloc\<close> does, the stack is not full after fewer than sixteen calls;
  \<^item> after any sixteen calls that all returned an identifier, the stack is full and the
    next call returns 255 and changes nothing.
\<close>

theorem create_on_full_stack:
  "(depth s = 16 \<longrightarrow> stack_full s \<and> create_lazy_context sz pa pm s = Some (255, s)) \<and>
   (top_idx (lazy_stack s0) = - 1 \<and> length reqs \<le> 16 \<and>
      (\<forall>q \<in> set reqs. fst (snd q) \<noteq> NULL \<and> snd (snd q) \<noteq> NULL) \<longrightarrow>
      (\<exists>s'. create_run reqs s0 = Some (map word_of_nat [0..<length reqs], s') \<and>
          (\<forall>r \<in> set (map word_of_nat [0..<length reqs] :: uint8_t list). r \<noteq> 255) \<and>
          depth s' = length reqs \<and>
          (length reqs < 16 \<longrightarrow> \<not> stack_full s') \<and>
          (length reqs = 16 \<longrightarrow>
             stack_full s' \<and> create_lazy_context sz pa pm s' = Some (255, s') \<and>
             create_run (reqs @ [(sz, pa, pm)]) s0
               = Some (map word_of_nat [0..<16] @ [255], s')))) \<and>
   (top_idx (lazy_stack s0) = - 1 \<and> length reqs < 16 \<longrightarrow>
      (\<exists>ids s'. create_run reqs s0 = Some (ids, s') \<and> \<not> stack_full s')) \<and>
   (top_idx (lazy_stack s0) = - 1 \<and> length reqs' = 16 \<and>
      create_run reqs' s0 = Some (ids', s1) \<and> (\<forall>r \<in> set ids'. r \<noteq> 255) \<longrightarrow>
      depth s1 = 16 \<and> stack_full s1 \<and> create_lazy_context sz pa pm s1 = Some (255, s1))"
proof (intro conjI impI)
  have full: "stack_full s \<and> create_lazy_context sz pa pm s = Some (255, s)"
    if "depth s = 16" for s
  proof -
    from that have "stack_full s"
      by (simp add: depth_def stack_full_def MAX_LAZY_STACK_def)
    then show ?thesis by (simp add: create_fail create_fails_def)
  qed
  have app: "create_run (xs @ [(sz, pa, pm)]) s = Some (ids @ [r], s'')"
    if "create_run xs s = Some (ids, s')" "create_lazy_context sz pa pm s' = Some (r, s'')"
    for xs s ids s' r s''
    using that
  proof (induction xs arbitrary: s ids)
    case Nil
    then show ?case by simp
  next
    case (Cons q xs)
    obtain sz' pa' pm' where q: "q = (sz', pa', pm')" by (cases q) auto
    from Cons.prems(1) obtain r1 t ids1 where
      c: "create_lazy_context sz' pa' pm' s = Some (r1, t)" "create_run xs t = Some (ids1, s')"
         "ids = r1 # ids1"
      unfolding q by (auto split: option.splits prod.splits)
    from Cons.IH[OF c(2) Cons.prems(2)] c(1,3) show ?case unfolding q by simp
  qed
  {
    assume "depth s = 16"
    then show "stack_full s" "create_lazy_context sz pa pm s = Some (255, s)"
      using full by simp_all
  }
  {
    assume h: "top_idx (lazy_stack s0) = - 1 \<and> length reqs \<le> 16 \<and>
      (\<forall>q \<in> set reqs. fst (snd q) \<noteq> NULL \<and> snd (snd q) \<noteq> NULL)"
    then have e: "- 1 \<le> top_idx (lazy_stack s0)" "depth s0 = 0" "depth s0 \<le> 16"
      by (simp_all add: depth_def)
    have l: "depth s0 + length reqs \<le> 16" using h e(2) by simp
    from create_run_succeeds[OF e(1) l] h obtain ids s' where
      r: "create_run reqs s0 = Some (ids, s')" "\<forall>r \<in> set ids. r \<noteq> 255"
      by blast
    from create_run_ids[OF e(1) e(3), of reqs] r have
      i: "depth s' = length reqs" "ids = map word_of_nat [0..<length reqs]"
      unfolding e(2) by auto
    have nf: "\<not> stack_full s'" if "length reqs < 16"
      using that i(1) by (simp add: depth_def stack_full_def MAX_LAZY_STACK_def)
    have f: "stack_full s' \<and> create_lazy_context sz pa pm s' = Some (255, s') \<and>
             create_run (reqs @ [(sz, pa, pm)]) s0 = Some (map word_of_nat [0..<16] @ [255], s')"
      if "length reqs = 16"
    proof -
      have d: "depth s' = 16" using that i(1) by simp
      have "create_run (reqs @ [(sz, pa, pm)]) s0 = Some (ids @ [255], s')"
        using app[OF r(1)] full[OF d] by simp
      then show ?thesis using full[OF d] i(2) that by simp
    qed
    show "\<exists>s'. create_run reqs s0 = Some (map word_of_nat [0..<length reqs], s') \<and>
          (\<forall>r \<in> set (map word_of_nat [0..<length reqs] :: uint8_t list). r \<noteq> 255) \<and>
          depth s' = length reqs \<and>
          (length reqs < 16 \<longrightarrow> \<not> stack_full s') \<and>
          (length reqs = 16 \<longrightarrow>
             stack_full s' \<and> create_lazy_context sz pa pm s' = Some (255, s') \<and>
             create_run (reqs @ [(sz, pa, pm)]) s0
               = Some (map word_of_nat [0..<16] @ [255], s'))"
      using r i nf f by (intro exI[of _ s']) blast
  }
  {
    assume h: "top_idx (lazy_stack s0) = - 1 \<and> length reqs < 16"
    then have e: "- 1 \<le> top_idx (lazy_stack s0)" "depth s0 = 0" "depth s0 \<le> 16"
      by (simp_all add: depth_def)
    from create_run_ids[OF e(1) e(3), of reqs] obtain ids s' where
      r: "create_run reqs s0 = Some (ids, s')" "depth s' \<le> length reqs"
      unfolding e(2) by auto
    have "length reqs < 16" using h by simp
    then have "\<not> stack_full s'"
      using r(2) by (simp add: depth_def stack_full_def MAX_LAZY_STACK_def)
    then show "\<exists>ids s'. create_run reqs s0 = Some (ids, s') \<and> \<not> stack_full s'"
      using r(1) by blast
  }
  {
    assume h: "top_idx (lazy_stack s0) = - 1 \<and> length reqs' = 16 \<and>
      create_run reqs' s0 = Some (ids', s1) \<and> (\<forall>r \<in> set ids'. r \<noteq> 255)"
    then have e: "- 1 \<le> top_idx (lazy_stack s0)" "depth s0 = 0" "depth s0 \<le> 16"
      by (simp_all add: depth_def)
    from create_run_ids[OF e(1) e(3), of reqs'] h have d: "depth s1 = 16"
      unfolding e(2) by auto
    then show "depth s1 = 16" "stack_full s1" "create_lazy_context sz pa pm s1 = Some (255, s1)"
      using full by simp_all
  }
qed

theorem create_on_full_stack_witness:
  "top_idx (lazy_stack init_machine) = - 1 \<and> length sixteen_requests = 16 \<and>
   (\<exists>s1. create_run sixteen_requests init_machine
            = Some ([0, 1, 2, 3, 4, 5, 6, 7, 8, 9, 10, 11, 12, 13, 14, 15], s1) \<and>
      depth s1 = 16 \<and> stack_full s1 \<and> create_lazy_context 8 132 133 s1 = Some (255, s1) \<and>
      create_run (sixteen_requests @ [(8, 132, 133)]) init_machine
        = Some ([0, 1, 2, 3, 4, 5, 6, 7, 8, 9, 10, 11, 12, 13, 14, 15, 255], s1)) \<and>
   (\<exists>s'. create_run [(1024, 100, 200), (512, 300, 400)] init_machine = Some ([0, 1], s') \<and>
      depth s' = 2 \<and> \<not> stack_full s')"
proof -
  have e: "top_idx (lazy_stack init_machine) = - 1" by (simp add: init_machine_def)
  have l: "length sixteen_requests = 16" by (simp add: sixteen_requests_def)
  have n: "\<forall>q \<in> set sixteen_requests. fst (snd q) \<noteq> NULL \<and> snd (snd q) \<noteq> NULL"
    by (auto simp: sixteen_requests_def NULL_def)
  have m: "map word_of_nat [0..<16] = [0, 1, 2, 3, 4, 5, 6, 7, 8, 9, 10, 11, 12, 13, 14, 15 :: uint8_t]"
    by (simp add: upt_rec)
  have a: "\<exists>s1. create_run sixteen_requests init_machine
            = Some ([0, 1, 2, 3, 4, 5, 6, 7, 8, 9, 10, 11, 12, 13, 14, 15], s1) \<and>
      depth s1 = 16 \<and> stack_full s1 \<and> create_lazy_context 8 132 133 s1 = Some (255, s1) \<and>
      create_run (sixteen_requests @ [(8, 132, 133)]) init_machine
        = Some ([0, 1, 2, 3, 4, 5, 6, 7, 8, 9, 10, 11, 12, 13, 14, 15, 255], s1)"
    using create_on_full_stack [of init_machine 8 132 133 init_machine sixteen_requests] e l n
    by (auto simp: m)
  have p: "top_idx (lazy_stack init_machine) = - 1 \<and>
      length [(1024 :: size_t, 100 :: ptr, 200 :: ptr), (512, 300, 400)] \<le> 16 \<and>
      (\<forall>q \<in> set [(1024 :: size_t, 100 :: ptr, 200 :: ptr), (512, 300, 400)].
          fst (snd q) \<noteq> NULL \<and> snd (snd q) \<noteq> NULL)"
    by (simp add: init_machine_def NULL_def)
  from create_on_full_stack [of init_machine 8 132 133 init_machine
      "[(1024, 100, 200), (512, 300, 400)]"] p
  obtain s' where
    s': "create_run [(1024, 100, 200), (512, 300, 400)] init_machine
           = Some (map word_of_nat [0..<length [(1024 :: size_t, 100 :: ptr, 200 :: ptr), (512, 300, 400)]], s')"
        "depth s' = length [(1024 :: size_t, 100 :: ptr, 200 :: ptr), (512, 300, 400)]"
        "length [(1024 :: size_t, 100 :: ptr, 200 :: ptr), (512, 300, 400)] < 16 \<longrightarrow> \<not> stack_full s'"
    by blast
  have b: "\<exists>s'. create_run [(1024, 100, 200), (512, 300, 400)] init_machine = Some ([0, 1], s') \<and>
      depth s' = 2 \<and> \<not> stack_full s'"
    using s' by (intro exI[of _ s']) (simp del: create_run.simps)
  show ?thesis using e l a b by blast
qed

end
